theory Spec2Isabelle
  imports Main "HOL-Library.Sublist" "HOL-Library.Char_ord" "HOL-Library.List_Lexorder"
    "HOL-Library.Multiset" "HOL-Library.AList"
begin

section \<open>Package model\<close>

text \<open>
  The struct \<^verbatim>\<open>Package\<close> of \<^verbatim>\<open>main.go\<close>, field by field; the nested
  \<^verbatim>\<open>Module.Path\<close> is the field \<open>ModulePath\<close>.

  The program handles packages through pointers (\<^verbatim>\<open>*Package\<close>) and compares them by
  address in \<^verbatim>\<open>slices.Contains\<close>. \<^verbatim>\<open>loadPackages\<close> allocates one \<^verbatim>\<open>Package\<close> for each
  decoded object and stores it under its own \<^verbatim>\<open>Dir\<close>, so two different pointers of a
  snapshot have different \<open>Dir\<close> fields, and equality of addresses is equality of the
  records. The model therefore uses the record itself for the pointer.
\<close>

record Package =
  Dir :: string
  ImportPath :: string
  Deps :: "string list"
  GoFiles :: "string list"
  IgnoredGoFiles :: "string list"
  TestGoFiles :: "string list"
  XTestGoFiles :: "string list"
  EmbedFiles :: "string list"
  TestImports :: "string list"
  XTestImports :: "string list"
  ModulePath :: string

text \<open>
  A Go map that the program iterates over is an association list: the order of the list
  is the order in which \<^verbatim>\<open>range\<close> happens to visit the entries, which the Go runtime
  leaves unspecified. A statement about every list is a statement about every order.
\<close>

type_synonym snapshot = "(string \<times> Package) list"

text \<open>
  \<^verbatim>\<open>loadPackages\<close>, after the decoding of the JSON stream: \<^verbatim>\<open>pkgs[pkg.Dir] = pkg\<close> for
  each decoded object in turn, a later object replacing an earlier one of the same
  directory.
\<close>

definition loadPackages :: "Package list \<Rightarrow> snapshot" where
  "loadPackages decoded = foldl (\<lambda>pkgs pkg. AList.update (Dir pkg) pkg pkgs) [] decoded"

text \<open>What \<^verbatim>\<open>loadPackages\<close> guarantees of a snapshot: one entry per key, each under its \<open>Dir\<close>.\<close>

definition snapshot_ok :: "snapshot \<Rightarrow> bool" where
  "snapshot_ok pkgs \<longleftrightarrow> distinct (map fst pkgs) \<and> (\<forall>(d, pkg) \<in> set pkgs. Dir pkg = d)"

section \<open>The reverse dependency index\<close>

text \<open>
  \<^verbatim>\<open>revdeps\<close> is a \<^verbatim>\<open>map[string][]*Package\<close> that is only ever read by key, and a missing
  key reads as the nil slice: a total function into lists, \<open>[]\<close> by default.
  \<^verbatim>\<open>strings.HasPrefix(s, p)\<close> is \<open>prefix p s\<close>.
\<close>

type_synonym revdeps = "string \<Rightarrow> Package list"

text \<open>The first inner loop of \<^verbatim>\<open>buildRevdeps\<close>, over \<^verbatim>\<open>pkg.Deps\<close>.\<close>

definition addDeps :: "Package \<Rightarrow> revdeps \<Rightarrow> revdeps" where
  "addDeps pkg revdeps =
     foldl (\<lambda>r dep. if prefix (ModulePath pkg) dep then r(dep := r dep @ [pkg]) else r)
       revdeps (Deps pkg)"

text \<open>The second inner loop, over \<^verbatim>\<open>append(pkg.TestImports, pkg.XTestImports...)\<close>.\<close>

definition addTestImports :: "Package \<Rightarrow> revdeps \<Rightarrow> revdeps" where
  "addTestImports pkg revdeps =
     foldl (\<lambda>r imp. if prefix (ModulePath pkg) imp \<and> pkg \<notin> set (r imp)
                     then r(imp := r imp @ [pkg]) else r)
       revdeps (TestImports pkg @ XTestImports pkg)"

definition buildRevdeps :: "snapshot \<Rightarrow> revdeps" where
  "buildRevdeps pkgs =
     foldl (\<lambda>r (d, pkg). addTestImports pkg (addDeps pkg r)) (\<lambda>_. []) pkgs"

section \<open>From changed files to packages\<close>

text \<open>\<^verbatim>\<open>allFunc\<close>: the loop returns false at the first element that fails \<open>f\<close>.\<close>

fun allFunc :: "'a list \<Rightarrow> ('a \<Rightarrow> bool) \<Rightarrow> bool" where
  "allFunc [] f = True"
| "allFunc (x # s) f = (if \<not> f x then False else allFunc s f)"

text \<open>
  \<^verbatim>\<open>slices.DeleteFunc(s, del)\<close> keeps, in order, the elements for which \<open>del\<close> is false.
\<close>

definition DeleteFunc :: "'a list \<Rightarrow> ('a \<Rightarrow> bool) \<Rightarrow> 'a list" where
  "DeleteFunc s del = filter (\<lambda>x. \<not> del x) s"

text \<open>\<^verbatim>\<open>testsToRun\<close>; the nil slice it returns is the empty list.\<close>

definition testsToRun :: "Package \<Rightarrow> Package list \<Rightarrow> string list \<Rightarrow> Package list" where
  "testsToRun pkg revdeps filenames =
     (if length revdeps = 0 then []
      else let filenames = DeleteFunc filenames (\<lambda>filename. filename \<in> set (IgnoredGoFiles pkg))
           in if length filenames = 0 then []
              else let toRun = revdeps
                   in if allFunc filenames (\<lambda>filename. filename \<in> set (TestGoFiles pkg)
                                                       \<or> filename \<in> set (XTestGoFiles pkg))
                      then [pkg]
                      else toRun @ [pkg])"

text \<open>
  \<^verbatim>\<open>filepath.Split\<close> of the Go library, on a system whose separator is \<^verbatim>\<open>/\<close>: the path is
  cut right after its last separator, and a path without separator has the empty
  directory.
\<close>

definition filepath_Split :: "string \<Rightarrow> string \<times> string" where
  "filepath_Split path =
     (let file = rev (takeWhile (\<lambda>c. c \<noteq> CHR ''/'') (rev path))
      in (take (length path - length file) path, file))"

text \<open>\<^verbatim>\<open>strings.TrimSuffix(s, suffix)\<close>: \<open>s\<close> without the suffix when it ends with it.\<close>

definition TrimSuffix :: "string \<Rightarrow> string \<Rightarrow> string" where
  "TrimSuffix s suf =
     (if length suf \<le> length s \<and> drop (length s - length suf) s = suf
      then take (length s - length suf) s else s)"

text \<open>The directory and the file name that \<^verbatim>\<open>runAllTests\<close> computes for one changed path.\<close>

definition dirOf :: "string \<Rightarrow> string" where
  "dirOf filename = TrimSuffix (fst (filepath_Split filename)) ''/''"

definition fileOf :: "string \<Rightarrow> string" where
  "fileOf filename = snd (filepath_Split filename)"

text \<open>
  The map \<^verbatim>\<open>byDir\<close> as an association list, a new key going to the end;
  \<^verbatim>\<open>byDir[dir] = append(byDir[dir], filename)\<close> reads a missing key as the nil slice.
\<close>

type_synonym groups = "(string \<times> string list) list"

definition byDir_add :: "groups \<Rightarrow> string \<Rightarrow> groups" where
  "byDir_add byDir filename =
     (let dir = dirOf filename; file = fileOf filename
      in AList.update dir ((case map_of byDir dir of None \<Rightarrow> [] | Some fs \<Rightarrow> fs) @ [file]) byDir)"

definition groupByDir :: "string list \<Rightarrow> groups" where
  "groupByDir filenames = foldl byDir_add [] filenames"

text \<open>
  The order in which \<^verbatim>\<open>range byDir\<close> visits the entries is chosen by the runtime: it is
  a parameter \<open>iter\<close> of the model, a rearrangement of the entries that visits each one
  once.
\<close>

definition range_order :: "(groups \<Rightarrow> groups) \<Rightarrow> bool" where
  "range_order iter \<longleftrightarrow> (\<forall>m. mset (iter m) = mset m)"

text \<open>The second loop of \<^verbatim>\<open>runAllTests\<close>: an unknown directory is skipped.\<close>

definition collectToRun :: "snapshot \<Rightarrow> revdeps \<Rightarrow> groups \<Rightarrow> Package list" where
  "collectToRun pkgs revdeps gs =
     foldl (\<lambda>toRun (dir, files).
              case map_of pkgs dir of
                None \<Rightarrow> toRun
              | Some pkg \<Rightarrow> toRun @ testsToRun pkg (revdeps (ImportPath pkg)) files)
       [] gs"

text \<open>
  What the body of that loop appends for the directory \<open>d\<close>, given the changed paths:
  the entry of \<^verbatim>\<open>byDir\<close> under \<open>d\<close> holds the file names of the paths of that
  directory, in the order of the batch.
\<close>

definition dirContribution :: "snapshot \<Rightarrow> revdeps \<Rightarrow> string list \<Rightarrow> string \<Rightarrow> Package list" where
  "dirContribution pkgs revdeps filenames d =
     (case map_of pkgs d of
        None \<Rightarrow> []
      | Some pkg \<Rightarrow> testsToRun pkg (revdeps (ImportPath pkg))
                      (map fileOf (filter (\<lambda>f. dirOf f = d) filenames)))"

text \<open>The predicate given to \<^verbatim>\<open>slices.DeleteFunc\<close>: a package without tests.\<close>

definition noTests :: "Package \<Rightarrow> bool" where
  "noTests pkg \<longleftrightarrow> length (TestGoFiles pkg) = 0 \<and> length (XTestGoFiles pkg) = 0"

text \<open>
  \<^verbatim>\<open>slices.Sort\<close> on strings orders them bytewise, which is the lexicographic order of
  character lists; a list has one sorted rearrangement under a linear order, so the
  insertion sort of the library returns what the Go sort returns. \<^verbatim>\<open>slices.Compact\<close>
  replaces each run of equal neighbours by one element.
\<close>

definition slices_Sort :: "string list \<Rightarrow> string list" where
  "slices_Sort paths = sort paths"

definition slices_Compact :: "string list \<Rightarrow> string list" where
  "slices_Compact paths = remdups_adj paths"

text \<open>
  \<^verbatim>\<open>runAllTests\<close> up to the list \<^verbatim>\<open>paths\<close> that follows \<^verbatim>\<open>"test"\<close> in the arguments of the
  \<^verbatim>\<open>go\<close> command.
\<close>

definition pathsToTest :: "(groups \<Rightarrow> groups) \<Rightarrow> snapshot \<Rightarrow> revdeps \<Rightarrow> string list \<Rightarrow> string list" where
  "pathsToTest iter pkgs revdeps filenames =
     (let byDir = groupByDir filenames;
          toRun = collectToRun pkgs revdeps (iter byDir);
          toRun = DeleteFunc toRun noTests;
          paths = map ImportPath toRun
      in slices_Compact (slices_Sort paths))"

text \<open>
  The lines \<^verbatim>\<open>runAllTests\<close> prints, and the whole function: \<open>run_go\<close> stands for the
  execution of the \<^verbatim>\<open>go\<close> command with the given arguments, \<open>None\<close> when it succeeds.
  The result is the printed lines and the returned error (\<open>None\<close> for \<^verbatim>\<open>nil\<close>).
\<close>

datatype message = NoAffectedTests | RunningOnePackage | RunningPackages nat | TestsPassed

definition runAllTests ::
  "(string list \<Rightarrow> 'e option) \<Rightarrow> (groups \<Rightarrow> groups) \<Rightarrow> snapshot \<Rightarrow> revdeps \<Rightarrow> string list
     \<Rightarrow> message list \<times> 'e option" where
  "runAllTests run_go iter pkgs revdeps filenames =
     (let paths = pathsToTest iter pkgs revdeps filenames
      in if length paths = 0 then ([NoAffectedTests], None)
         else let announce = (if length paths = 1 then RunningOnePackage
                              else RunningPackages (length paths));
                  args = ''test'' # paths
              in case run_go args of
                   Some err \<Rightarrow> ([announce], Some err)
                 | None \<Rightarrow> ([announce, TestsPassed], None))"

section \<open>The debounce collector\<close>

text \<open>
  Time is the reading of a clock in nanoseconds, the unit of \<^verbatim>\<open>time.Duration\<close>. The
  channel is the list of the values still to come, each with the time at which it
  becomes available to the receiver, in order of arrival.

  \<^verbatim>\<open>debounceFor\<close> evaluates \<^verbatim>\<open>time.After(duration)\<close> once, before its loop, so the
  deadline is the time of the call plus the duration. Each round of the loop is one
  \<^verbatim>\<open>select\<close>, entered at time \<open>now\<close>. It blocks until one of its cases is ready and
  takes the case that is ready first: the receive is ready from the arrival of the next
  value on, the other case from the deadline on. When both are ready at the same
  instant the runtime picks either; \<open>pick\<close>, applied to the events gathered so far,
  says whether it is the receive. The loop itself takes no time.

  The result is the returned slice, the time of the \<^verbatim>\<open>return\<close>, and what is left in the
  channel.
\<close>

definition debouncePeriod :: nat where
  "debouncePeriod = 200 * 1000000"

fun debounceLoop ::
  "('a list \<Rightarrow> bool) \<Rightarrow> nat \<Rightarrow> nat \<Rightarrow> (nat \<times> 'a) list \<Rightarrow> 'a list
     \<Rightarrow> 'a list \<times> nat \<times> (nat \<times> 'a) list" where
  "debounceLoop pick deadline now [] events = (events, max now deadline, [])"
| "debounceLoop pick deadline now ((arrival, t) # ch) events =
     (let received = max now arrival; expired = max now deadline
      in if received < expired \<or> (received = expired \<and> pick events)
         then debounceLoop pick deadline received ch (events @ [t])
         else (events, expired, (arrival, t) # ch))"

text \<open>A runtime that takes the deadline whenever both cases are ready.\<close>

definition deadlineWins :: "'a list \<Rightarrow> bool" where
  "deadlineWins events = False"

definition debounceFor ::
  "('a list \<Rightarrow> bool) \<Rightarrow> nat \<Rightarrow> (nat \<times> 'a) list \<Rightarrow> nat
     \<Rightarrow> 'a list \<times> nat \<times> (nat \<times> 'a) list" where
  "debounceFor pick now ch duration = debounceLoop pick (now + duration) now ch []"

text \<open>
  One round of the loop of \<^verbatim>\<open>run\<close> over \<^verbatim>\<open>w.Events\<close>, up to the call of \<^verbatim>\<open>runAllTests\<close>:
  the loop, ready at time \<open>now\<close>, receives the first event when it arrives, calls
  \<^verbatim>\<open>debounceFor\<close> at once, and puts the first name before the names of the others.
  The values of the channel are the names of the events. The result is \<open>None\<close> while the
  channel has nothing to deliver; otherwise the file names of the batch, the time at
  which \<^verbatim>\<open>debounceFor\<close> returned, and the rest of the channel.
\<close>

definition nextBatch ::
  "(string list \<Rightarrow> bool) \<Rightarrow> nat \<Rightarrow> (nat \<times> string) list
     \<Rightarrow> (string list \<times> nat \<times> (nat \<times> string) list) option" where
  "nextBatch pick now ch =
     (case ch of
        [] \<Rightarrow> None
      | (arrival, event) # ch' \<Rightarrow>
          let start = max now arrival;
              (events, returned, rest) = debounceFor pick start ch' debouncePeriod;
              filenames = event # events
          in Some (filenames, returned, rest))"

section \<open>An example module\<close>

text \<open>
  The module \<^verbatim>\<open>example.com/app\<close>: \<^verbatim>\<open>core\<close> has tests and an ignored file, \<^verbatim>\<open>api\<close> depends
  on \<^verbatim>\<open>core\<close> and has an external test package, which imports \<^verbatim>\<open>core\<close> and, as such
  packages do, \<^verbatim>\<open>api\<close> itself, \<^verbatim>\<open>cmd\<close> depends on both and has no tests, and \<^verbatim>\<open>solo\<close> has tests and
  nothing that depends on it.
\<close>

definition ex_core :: Package where
  "ex_core = \<lparr>Dir = ''/app/core'', ImportPath = ''example.com/app/core'', Deps = [],
     GoFiles = [''core.go''], IgnoredGoFiles = [''core_windows.go''],
     TestGoFiles = [''core_test.go''], XTestGoFiles = [], EmbedFiles = [],
     TestImports = [''testing''], XTestImports = [], ModulePath = ''example.com/app''\<rparr>"

definition ex_api :: Package where
  "ex_api = \<lparr>Dir = ''/app/api'', ImportPath = ''example.com/app/api'',
     Deps = [''example.com/app/core'', ''fmt''],
     GoFiles = [''api.go''], IgnoredGoFiles = [],
     TestGoFiles = [], XTestGoFiles = [''api_test.go''], EmbedFiles = [],
     TestImports = [],
     XTestImports = [''example.com/app/api'', ''example.com/app/core'', ''testing''],
     ModulePath = ''example.com/app''\<rparr>"

definition ex_cmd :: Package where
  "ex_cmd = \<lparr>Dir = ''/app/cmd'', ImportPath = ''example.com/app/cmd'',
     Deps = [''example.com/app/api'', ''example.com/app/core'', ''fmt''],
     GoFiles = [''main.go''], IgnoredGoFiles = [],
     TestGoFiles = [], XTestGoFiles = [], EmbedFiles = [],
     TestImports = [], XTestImports = [], ModulePath = ''example.com/app''\<rparr>"

definition ex_solo :: Package where
  "ex_solo = \<lparr>Dir = ''/app/solo'', ImportPath = ''example.com/app/solo'', Deps = [''fmt''],
     GoFiles = [''solo.go''], IgnoredGoFiles = [],
     TestGoFiles = [''solo_test.go''], XTestGoFiles = [], EmbedFiles = [],
     TestImports = [''testing''], XTestImports = [], ModulePath = ''example.com/app''\<rparr>"

definition ex_snapshot :: snapshot where
  "ex_snapshot = [(''/app/core'', ex_core), (''/app/api'', ex_api), (''/app/cmd'', ex_cmd),
     (''/app/solo'', ex_solo)]"

text \<open>A \<^verbatim>\<open>go\<close> command that fails whatever its arguments, with the error of a failed run.\<close>

definition go_fails :: "string list \<Rightarrow> string option" where
  "go_fails args = Some ''exit status 1''"

section \<open>Basic facts\<close>

lemma allFunc_iff: "allFunc s f \<longleftrightarrow> (\<forall>x \<in> set s. f x)"
  by (induction s) auto

lemma testsToRun_ignored:
  assumes "set filenames \<subseteq> set (IgnoredGoFiles pkg)"
  shows "testsToRun pkg revdeps filenames = []"
proof -
  have "DeleteFunc filenames (\<lambda>filename. filename \<in> set (IgnoredGoFiles pkg)) = []"
    unfolding DeleteFunc_def using assms by (auto simp: filter_empty_conv)
  then show ?thesis by (simp add: testsToRun_def)
qed

lemma testsToRun_set_cong:
  "set fs = set fs' \<Longrightarrow> testsToRun pkg r fs = testsToRun pkg r fs'"
  by (auto simp add: testsToRun_def DeleteFunc_def allFunc_iff Let_def filter_empty_conv)

subsection \<open>Grouping by directory\<close>

lemma groupByDir_snoc: "groupByDir (fs @ [f]) = byDir_add (groupByDir fs) f"
  by (simp add: groupByDir_def)

lemma groupByDir_distinct: "distinct (map fst (groupByDir fs))"
  by (induction fs rule: rev_induct)
    (simp_all add: groupByDir_def byDir_add_def Let_def distinct_update)

lemma groupByDir_lookup:
  "map_of (groupByDir fs) d =
     (if d \<in> dirOf ` set fs then Some (map fileOf (filter (\<lambda>f. dirOf f = d) fs)) else None)"
proof (induction fs arbitrary: d rule: rev_induct)
  case Nil
  then show ?case by (simp add: groupByDir_def)
next
  case (snoc f fs)
  have none: "filter (\<lambda>g. dirOf g = dirOf f) fs = []" if "dirOf f \<notin> dirOf ` set fs"
    using that by (auto simp: filter_empty_conv image_iff)
  show ?case
  proof (cases "d = dirOf f")
    case True
    then show ?thesis
      unfolding groupByDir_snoc byDir_add_def Let_def update_conv'
      using snoc[of "dirOf f"] none by (simp split: if_splits)
  next
    case False
    then show ?thesis
      unfolding groupByDir_snoc byDir_add_def Let_def update_conv'
      using snoc[of d] by auto
  qed
qed

lemma set_groupByDir:
  "set (groupByDir fs) = (\<lambda>d. (d, map fileOf (filter (\<lambda>f. dirOf f = d) fs))) ` dirOf ` set fs"
proof -
  have "(d, v) \<in> set (groupByDir fs) \<longleftrightarrow> map_of (groupByDir fs) d = Some v" for d v
    using groupByDir_distinct by simp
  then show ?thesis
    by (auto simp: groupByDir_lookup split: if_splits)
qed

subsection \<open>The packages collected for a batch\<close>

lemma collectToRun_concat:
  "collectToRun pkgs revdeps gs =
     concat (map (\<lambda>(dir, files). case map_of pkgs dir of None \<Rightarrow> []
                   | Some pkg \<Rightarrow> testsToRun pkg (revdeps (ImportPath pkg)) files) gs)"
proof -
  have "foldl (\<lambda>toRun (dir, files).
              case map_of pkgs dir of
                None \<Rightarrow> toRun
              | Some pkg \<Rightarrow> toRun @ testsToRun pkg (revdeps (ImportPath pkg)) files) acc gs
      = acc @ concat (map (\<lambda>(dir, files). case map_of pkgs dir of None \<Rightarrow> []
                   | Some pkg \<Rightarrow> testsToRun pkg (revdeps (ImportPath pkg)) files) gs)" for acc
    by (induction gs arbitrary: acc) (auto split: option.splits)
  then show ?thesis by (simp add: collectToRun_def)
qed

lemma range_order_set: "range_order iter \<Longrightarrow> set (iter m) = set m"
  unfolding range_order_def by (metis set_mset_mset)

lemma range_order_id: "range_order id"
  by (simp add: range_order_def)

lemma range_order_rev: "range_order rev"
  by (simp add: range_order_def)

lemma set_collected:
  assumes "range_order iter"
  shows "set (collectToRun pkgs revdeps (iter (groupByDir fs)))
           = (\<Union>d \<in> dirOf ` set fs. set (dirContribution pkgs revdeps fs d))"
  unfolding collectToRun_concat
  by (auto simp: range_order_set[OF assms] set_groupByDir dirContribution_def
      split: option.splits)

lemma set_pathsToTest:
  assumes "range_order iter"
  shows "set (pathsToTest iter pkgs revdeps fs)
     = ImportPath ` {pkg \<in> (\<Union>d \<in> dirOf ` set fs. set (dirContribution pkgs revdeps fs d)).
                      \<not> noTests pkg}"
proof -
  have "set (pathsToTest iter pkgs revdeps fs)
      = ImportPath ` {pkg \<in> set (collectToRun pkgs revdeps (iter (groupByDir fs))).
                       \<not> noTests pkg}"
    by (simp add: pathsToTest_def Let_def slices_Compact_def slices_Sort_def DeleteFunc_def)
  then show ?thesis
    by (simp only: set_collected[OF assms])
qed

lemma distinct_remdups_adj_sorted:
  fixes xs :: "'a::linorder list"
  shows "sorted xs \<Longrightarrow> distinct (remdups_adj xs)"
  by (induction xs rule: remdups_adj.induct) (auto simp: order.strict_iff_order)

lemma pathsToTest_sorted: "sorted (pathsToTest iter pkgs revdeps fs)"
  by (simp add: pathsToTest_def slices_Compact_def slices_Sort_def)

lemma pathsToTest_distinct: "distinct (pathsToTest iter pkgs revdeps fs)"
  by (simp add: pathsToTest_def slices_Compact_def slices_Sort_def distinct_remdups_adj_sorted)

lemma dirContribution_set_cong:
  assumes "set fs = set fs'"
  shows "dirContribution pkgs revdeps fs d = dirContribution pkgs revdeps fs' d"
proof (cases "map_of pkgs d")
  case None
  then show ?thesis by (simp add: dirContribution_def)
next
  case (Some pkg)
  have "set (map fileOf (filter (\<lambda>f. dirOf f = d) fs))
          = set (map fileOf (filter (\<lambda>f. dirOf f = d) fs'))"
    using assms by simp
  then show ?thesis
    using Some by (simp add: dirContribution_def testsToRun_set_cong)
qed

section \<open>Ignored files\<close>

text \<open>
  C6. When every changed file of the directory of a package \<open>Q\<close> is one of \<open>Q\<close>'s
  \<^verbatim>\<open>IgnoredGoFiles\<close>, the directory adds no package to the batch, whatever the reverse
  index lists under \<open>Q\<close>; the other directories of the batch are not constrained.
\<close>

theorem ignored_files_contribute_nothing:
  assumes "map_of pkgs d = Some Q"
    and "\<forall>f \<in> set filenames. dirOf f = d \<longrightarrow> fileOf f \<in> set (IgnoredGoFiles Q)"
  shows "dirContribution pkgs revdeps filenames d = []"
proof -
  have "set (map fileOf (filter (\<lambda>f. dirOf f = d) filenames)) \<subseteq> set (IgnoredGoFiles Q)"
    using assms(2) by auto
  then show ?thesis
    using assms(1) by (simp only: dirContribution_def option.case testsToRun_ignored)
qed

text \<open>
  In the example, \<^verbatim>\<open>core\<close> has reverse dependents, and a change of its ignored file adds
  nothing for its directory.
\<close>

theorem ignored_files_contribute_nothing_witness:
  "map_of ex_snapshot ''/app/core'' = Some ex_core
   \<and> buildRevdeps ex_snapshot (ImportPath ex_core) \<noteq> []
   \<and> dirContribution ex_snapshot (buildRevdeps ex_snapshot)
        [''/app/core/core_windows.go'', ''/app/api/api.go''] ''/app/core'' = []"
proof -
  have look: "map_of ex_snapshot ''/app/core'' = Some ex_core"
    by code_simp
  have ign: "\<forall>f \<in> set [''/app/core/core_windows.go'', ''/app/api/api.go''].
               dirOf f = ''/app/core'' \<longrightarrow> fileOf f \<in> set (IgnoredGoFiles ex_core)"
    by code_simp
  have rd: "buildRevdeps ex_snapshot (ImportPath ex_core) \<noteq> []"
    by code_simp
  show ?thesis
    using look rd ignored_files_contribute_nothing[OF look ign] by simp
qed

section \<open>The arguments of the test command\<close>

text \<open>
  C10. The list of import paths given to the \<^verbatim>\<open>go test\<close> command is sorted and has no
  duplicates, and it is a function of the set of changed paths: two runs on the same
  snapshot and reverse index whose batches hold the same paths, in any order and with
  any repetitions, and whose maps are visited in any two orders, compute the same list
  and hence print and return the same.
\<close>

theorem executor_arguments_canonical:
  "sorted (pathsToTest iter pkgs revdeps fs) \<and> distinct (pathsToTest iter pkgs revdeps fs)
   \<and> (range_order iter \<and> range_order iter' \<and> set fs = set fs'
        \<longrightarrow> pathsToTest iter pkgs revdeps fs = pathsToTest iter' pkgs revdeps fs'
            \<and> runAllTests run_go iter pkgs revdeps fs = runAllTests run_go iter' pkgs revdeps fs')"
proof -
  have eq: "pathsToTest iter pkgs revdeps fs = pathsToTest iter' pkgs revdeps fs'"
    if "range_order iter" "range_order iter'" "set fs = set fs'"
  proof (rule sorted_distinct_set_unique)
    show "set (pathsToTest iter pkgs revdeps fs) = set (pathsToTest iter' pkgs revdeps fs')"
      using that by (simp add: set_pathsToTest dirContribution_set_cong[OF that(3)])
  qed (simp_all add: pathsToTest_sorted pathsToTest_distinct)
  then have "runAllTests run_go iter pkgs revdeps fs = runAllTests run_go iter' pkgs revdeps fs'"
    if "range_order iter" "range_order iter'" "set fs = set fs'"
    using that by (simp add: runAllTests_def)
  with eq show ?thesis
    by (simp add: pathsToTest_sorted pathsToTest_distinct)
qed

text \<open>
  Two batches of the example with the same paths, one with a repetition and visited in
  the opposite order, give the same two import paths.
\<close>

theorem executor_arguments_canonical_witness:
  "range_order id \<and> range_order rev
   \<and> set [''/app/core/core.go'', ''/app/api/api_test.go'', ''/app/core/core.go'']
       = set [''/app/api/api_test.go'', ''/app/core/core.go'']
   \<and> pathsToTest id ex_snapshot (buildRevdeps ex_snapshot)
      [''/app/core/core.go'', ''/app/api/api_test.go'', ''/app/core/core.go'']
   = pathsToTest rev ex_snapshot (buildRevdeps ex_snapshot)
      [''/app/api/api_test.go'', ''/app/core/core.go'']
   \<and> pathsToTest id ex_snapshot (buildRevdeps ex_snapshot)
      [''/app/core/core.go'', ''/app/api/api_test.go'', ''/app/core/core.go'']
     = [''example.com/app/api'', ''example.com/app/core'']"
proof -
  have s: "set [''/app/core/core.go'', ''/app/api/api_test.go'', ''/app/core/core.go'']
         = set [''/app/api/api_test.go'', ''/app/core/core.go'']"
    by auto
  have v: "pathsToTest id ex_snapshot (buildRevdeps ex_snapshot)
      [''/app/core/core.go'', ''/app/api/api_test.go'', ''/app/core/core.go'']
     = [''example.com/app/api'', ''example.com/app/core'']"
    by code_simp
  from executor_arguments_canonical[of id ex_snapshot "buildRevdeps ex_snapshot"
        "[''/app/core/core.go'', ''/app/api/api_test.go'', ''/app/core/core.go'']"
        rev "[''/app/api/api_test.go'', ''/app/core/core.go'']"]
  have "pathsToTest id ex_snapshot (buildRevdeps ex_snapshot)
      [''/app/core/core.go'', ''/app/api/api_test.go'', ''/app/core/core.go'']
   = pathsToTest rev ex_snapshot (buildRevdeps ex_snapshot)
      [''/app/api/api_test.go'', ''/app/core/core.go'']"
    using range_order_id range_order_rev s by blast
  then show ?thesis
    using range_order_id range_order_rev s v by blast
qed

subsection \<open>Small facts used below\<close>

lemma image_Collect_Un: "f ` {x \<in> A \<union> B. P x} = f ` {x \<in> A. P x} \<union> f ` {x \<in> B. P x}"
  by auto

section \<open>Batches\<close>

text \<open>
  C7. For two changed paths whose directories differ, the import paths selected for the
  batch of both are those selected for the first path alone together with those
  selected for the second alone, whatever the orders in which the maps are visited.
\<close>

theorem batch_is_union:
  assumes "range_order iter" and "range_order iter1" and "range_order iter2"
    and "dirOf f1 \<noteq> dirOf f2"
  shows "set (pathsToTest iter pkgs revdeps [f1, f2])
         = set (pathsToTest iter1 pkgs revdeps [f1]) \<union> set (pathsToTest iter2 pkgs revdeps [f2])"
proof -
  have g1: "filter (\<lambda>f. dirOf f = dirOf f1) [f1, f2] = filter (\<lambda>f. dirOf f = dirOf f1) [f1]"
    using not_sym[OF assms(4)] by simp
  have g2: "filter (\<lambda>f. dirOf f = dirOf f2) [f1, f2] = filter (\<lambda>f. dirOf f = dirOf f2) [f2]"
    using assms(4) by simp
  have c1: "dirContribution pkgs revdeps [f1, f2] (dirOf f1) = dirContribution pkgs revdeps [f1] (dirOf f1)"
    unfolding dirContribution_def g1 ..
  have c2: "dirContribution pkgs revdeps [f1, f2] (dirOf f2) = dirContribution pkgs revdeps [f2] (dirOf f2)"
    unfolding dirContribution_def g2 ..
  have u: "(\<Union>d \<in> dirOf ` set [f1, f2]. set (dirContribution pkgs revdeps [f1, f2] d))
      = set (dirContribution pkgs revdeps [f1] (dirOf f1))
        \<union> set (dirContribution pkgs revdeps [f2] (dirOf f2))"
    by (simp add: c1 c2)
  have u1: "(\<Union>d \<in> dirOf ` set [f1]. set (dirContribution pkgs revdeps [f1] d))
      = set (dirContribution pkgs revdeps [f1] (dirOf f1))"
    by simp
  have u2: "(\<Union>d \<in> dirOf ` set [f2]. set (dirContribution pkgs revdeps [f2] d))
      = set (dirContribution pkgs revdeps [f2] (dirOf f2))"
    by simp
  show ?thesis
    unfolding set_pathsToTest[OF assms(1)] set_pathsToTest[OF assms(2)]
      set_pathsToTest[OF assms(3)] u u1 u2
    by (rule image_Collect_Un)
qed

text \<open>A test file of \<^verbatim>\<open>core\<close> and a production file of \<^verbatim>\<open>api\<close>.\<close>

theorem batch_is_union_witness:
  "dirOf ''/app/core/core_test.go'' \<noteq> dirOf ''/app/api/api.go''
   \<and> set (pathsToTest rev ex_snapshot (buildRevdeps ex_snapshot)
            [''/app/core/core_test.go'', ''/app/api/api.go''])
       = set (pathsToTest id ex_snapshot (buildRevdeps ex_snapshot) [''/app/core/core_test.go''])
         \<union> set (pathsToTest id ex_snapshot (buildRevdeps ex_snapshot) [''/app/api/api.go''])
   \<and> pathsToTest rev ex_snapshot (buildRevdeps ex_snapshot)
            [''/app/core/core_test.go'', ''/app/api/api.go'']
       = [''example.com/app/api'', ''example.com/app/core'']"
proof -
  have d: "dirOf ''/app/core/core_test.go'' \<noteq> dirOf ''/app/api/api.go''"
    by code_simp
  have v: "pathsToTest rev ex_snapshot (buildRevdeps ex_snapshot)
            [''/app/core/core_test.go'', ''/app/api/api.go'']
       = [''example.com/app/api'', ''example.com/app/core'']"
    by code_simp
  show ?thesis
    using d v batch_is_union[OF range_order_rev range_order_id range_order_id d,
        of ex_snapshot "buildRevdeps ex_snapshot"]
    by blast
qed

text \<open>
  C8. When no changed path of the batch lies in a directory of the snapshot, no import
  path is selected, and \<^verbatim>\<open>runAllTests\<close> prints that there are no affected tests and
  returns \<^verbatim>\<open>nil\<close>, without running the \<^verbatim>\<open>go\<close> command.
\<close>

theorem unknown_directories_no_tests:
  assumes "range_order iter"
    and "\<forall>f \<in> set filenames. dirOf f \<notin> fst ` set pkgs"
  shows "pathsToTest iter pkgs revdeps filenames = []
         \<and> runAllTests run_go iter pkgs revdeps filenames = ([NoAffectedTests], None)"
proof -
  have "dirContribution pkgs revdeps filenames d = []" if "d \<in> dirOf ` set filenames" for d
  proof -
    have "map_of pkgs d = None"
      using that assms(2) by (auto simp: map_of_eq_None_iff)
    then show ?thesis by (simp add: dirContribution_def)
  qed
  then have "set (pathsToTest iter pkgs revdeps filenames) = {}"
    unfolding set_pathsToTest[OF assms(1)] by auto
  then have "pathsToTest iter pkgs revdeps filenames = []"
    by simp
  then show ?thesis
    by (simp add: runAllTests_def)
qed

text \<open>
  Two paths outside the packages of the example; the \<^verbatim>\<open>go\<close> command would fail, and is
  not run.
\<close>

theorem unknown_directories_no_tests_witness:
  "pathsToTest id ex_snapshot (buildRevdeps ex_snapshot) [''/app/docs/notes.md'', ''/tmp/x.go''] = []
   \<and> runAllTests go_fails id ex_snapshot (buildRevdeps ex_snapshot)
         [''/app/docs/notes.md'', ''/tmp/x.go''] = ([NoAffectedTests], None)"
proof -
  have u: "\<forall>f \<in> set [''/app/docs/notes.md'', ''/tmp/x.go'']. dirOf f \<notin> fst ` set ex_snapshot"
    by code_simp
  show ?thesis
    using unknown_directories_no_tests[OF range_order_id u] by blast
qed

section \<open>Packages without tests\<close>

text \<open>
  C5. The selected import paths are exactly those of the collected packages that have a
  test file or an external test file. Hence a package without tests is never selected,
  also when it was collected as a reverse dependent: its import path is not in the
  result, import paths identifying the collected packages.
\<close>

theorem no_tests_never_selected:
  "set (pathsToTest iter pkgs revdeps filenames)
     = ImportPath ` {pkg \<in> set (collectToRun pkgs revdeps (iter (groupByDir filenames))). \<not> noTests pkg}
   \<and> (\<forall>P. noTests P
          \<and> (\<forall>pkg \<in> set (collectToRun pkgs revdeps (iter (groupByDir filenames))).
                ImportPath pkg = ImportPath P \<longrightarrow> pkg = P)
        \<longrightarrow> ImportPath P \<notin> set (pathsToTest iter pkgs revdeps filenames))"
proof -
  have "set (pathsToTest iter pkgs revdeps filenames)
     = ImportPath ` {pkg \<in> set (collectToRun pkgs revdeps (iter (groupByDir filenames))). \<not> noTests pkg}"
    by (simp add: pathsToTest_def Let_def slices_Compact_def slices_Sort_def DeleteFunc_def)
  then show ?thesis by auto
qed

text \<open>
  \<^verbatim>\<open>cmd\<close> has no tests and is collected as a reverse dependent of \<^verbatim>\<open>core\<close>; it is not
  selected.
\<close>

theorem no_tests_never_selected_witness:
  "noTests ex_cmd
   \<and> ex_cmd \<in> set (collectToRun ex_snapshot (buildRevdeps ex_snapshot)
                      (id (groupByDir [''/app/core/core.go''])))
   \<and> ImportPath ex_cmd \<notin> set (pathsToTest id ex_snapshot (buildRevdeps ex_snapshot)
                                  [''/app/core/core.go''])"
proof -
  have n: "noTests ex_cmd"
    by code_simp
  have m: "ex_cmd \<in> set (collectToRun ex_snapshot (buildRevdeps ex_snapshot)
                      (id (groupByDir [''/app/core/core.go''])))"
    by code_simp
  have u: "\<forall>pkg \<in> set (collectToRun ex_snapshot (buildRevdeps ex_snapshot)
                      (id (groupByDir [''/app/core/core.go'']))).
             ImportPath pkg = ImportPath ex_cmd \<longrightarrow> pkg = ex_cmd"
    by code_simp
  show ?thesis
    using n m u no_tests_never_selected[of id ex_snapshot "buildRevdeps ex_snapshot"
        "[''/app/core/core.go'']"]
    by blast
qed

section \<open>Changes of test files only\<close>

text \<open>
  C4. In the example, \<^verbatim>\<open>solo\<close> has the test file \<^verbatim>\<open>solo_test.go\<close>, no ignored file, and
  nothing listed under its import path in the reverse index. When that test file alone
  changes, its directory adds no package and no import path is selected:
  \<^verbatim>\<open>testsToRun\<close> returns at its first test, before the test for a change of test files
  only that returns the package itself.
\<close>

theorem test_file_change_lost_without_dependents:
  "map_of ex_snapshot ''/app/solo'' = Some ex_solo
   \<and> TestGoFiles ex_solo = [''solo_test.go''] \<and> IgnoredGoFiles ex_solo = []
   \<and> buildRevdeps ex_snapshot (ImportPath ex_solo) = []
   \<and> dirContribution ex_snapshot (buildRevdeps ex_snapshot)
        [''/app/solo/solo_test.go''] ''/app/solo'' = []
   \<and> pathsToTest id ex_snapshot (buildRevdeps ex_snapshot) [''/app/solo/solo_test.go''] = []"
  by code_simp

section \<open>A package nothing depends on\<close>

text \<open>
  C1. In the example, \<^verbatim>\<open>solo\<close> has a test file and the reverse index lists nothing
  under its import path. When its production file \<^verbatim>\<open>solo.go\<close> changes, no import
  path is selected: \<^verbatim>\<open>testsToRun\<close> returns at its first test, before the line that
  adds the package itself.
\<close>

theorem self_inclusion_lost_without_dependents:
  "map_of ex_snapshot ''/app/solo'' = Some ex_solo
   \<and> GoFiles ex_solo = [''solo.go''] \<and> TestGoFiles ex_solo = [''solo_test.go'']
   \<and> buildRevdeps ex_snapshot (ImportPath ex_solo) = []
   \<and> pathsToTest id ex_snapshot (buildRevdeps ex_snapshot) [''/app/solo/solo.go''] = []"
  by code_simp

section \<open>Properties of the reverse index\<close>

text \<open>
  C2. In the example, the external test package of \<^verbatim>\<open>api\<close> imports \<^verbatim>\<open>api\<close>, and
  \<^verbatim>\<open>buildRevdeps\<close> lists \<^verbatim>\<open>api\<close> under its own import path.
\<close>

theorem package_listed_under_itself:
  "XTestImports ex_api = [''example.com/app/api'', ''example.com/app/core'', ''testing'']
   \<and> ImportPath ex_api = ''example.com/app/api''
   \<and> buildRevdeps ex_snapshot (ImportPath ex_api) = [ex_api, ex_cmd]"
  by code_simp

subsection \<open>Membership in the lists of the index\<close>

lemma addDeps_fold_mem:
  "Q \<in> set (foldl (\<lambda>r dep. if prefix (ModulePath pkg) dep then r(dep := r dep @ [pkg]) else r) r ds D)
     \<longleftrightarrow> Q \<in> set (r D) \<or> (Q = pkg \<and> D \<in> set ds \<and> prefix (ModulePath pkg) D)"
  by (induction ds arbitrary: r) auto

lemma addDeps_mem:
  "Q \<in> set (addDeps pkg r D)
     \<longleftrightarrow> Q \<in> set (r D) \<or> (Q = pkg \<and> D \<in> set (Deps pkg) \<and> prefix (ModulePath pkg) D)"
  unfolding addDeps_def by (rule addDeps_fold_mem)

lemma addTestImports_fold_mem:
  "Q \<in> set (foldl (\<lambda>r imp. if prefix (ModulePath pkg) imp \<and> pkg \<notin> set (r imp)
                     then r(imp := r imp @ [pkg]) else r) r ds D)
     \<longleftrightarrow> Q \<in> set (r D) \<or> (Q = pkg \<and> D \<in> set ds \<and> prefix (ModulePath pkg) D)"
  by (induction ds arbitrary: r) auto

lemma addTestImports_mem:
  "Q \<in> set (addTestImports pkg r D)
     \<longleftrightarrow> Q \<in> set (r D) \<or> (Q = pkg \<and> (D \<in> set (TestImports pkg) \<or> D \<in> set (XTestImports pkg))
                            \<and> prefix (ModulePath pkg) D)"
  unfolding addTestImports_def addTestImports_fold_mem by auto

lemma buildRevdeps_fold_mem:
  "Q \<in> set (foldl (\<lambda>r (d, pkg). addTestImports pkg (addDeps pkg r)) r pkgs D)
     \<longleftrightarrow> Q \<in> set (r D)
         \<or> (Q \<in> snd ` set pkgs
            \<and> (D \<in> set (Deps Q) \<or> D \<in> set (TestImports Q) \<or> D \<in> set (XTestImports Q))
            \<and> prefix (ModulePath Q) D)"
proof (induction pkgs arbitrary: r)
  case Nil
  then show ?case by simp
next
  case (Cons a pkgs)
  obtain d pkg where a: "a = (d, pkg)" by (cases a)
  show ?case
    unfolding a by (simp add: Cons addTestImports_mem addDeps_mem) blast
qed

lemma buildRevdeps_mem:
  "Q \<in> set (buildRevdeps pkgs D)
     \<longleftrightarrow> Q \<in> snd ` set pkgs
         \<and> (D \<in> set (Deps Q) \<or> D \<in> set (TestImports Q) \<or> D \<in> set (XTestImports Q))
         \<and> prefix (ModulePath Q) D"
  unfolding buildRevdeps_def buildRevdeps_fold_mem by simp

subsection \<open>No duplicates in the lists of the index\<close>

lemma addDeps_fold_distinct:
  assumes "distinct ds" and "\<forall>D. distinct (r D)" and "\<forall>D \<in> set ds. pkg \<notin> set (r D)"
  shows "distinct (foldl (\<lambda>r dep. if prefix (ModulePath pkg) dep then r(dep := r dep @ [pkg]) else r) r ds D)"
  using assms
proof (induction ds arbitrary: r)
  case Nil
  then show ?case by simp
next
  case (Cons d ds)
  let ?r' = "if prefix (ModulePath pkg) d then r(d := r d @ [pkg]) else r"
  have 1: "distinct ds" using Cons.prems(1) by simp
  have 2: "\<forall>D. distinct (?r' D)" using Cons.prems(2,3) by simp
  have 3: "\<forall>D \<in> set ds. pkg \<notin> set (?r' D)" using Cons.prems(1,3) by auto
  show ?case
    using Cons.IH[OF 1 2 3] by simp
qed

lemma addDeps_distinct:
  assumes "distinct (Deps pkg)" and "\<forall>D. distinct (r D)" and "\<forall>D. pkg \<notin> set (r D)"
  shows "distinct (addDeps pkg r D)"
  unfolding addDeps_def using assms by (intro addDeps_fold_distinct) auto

lemma addTestImports_fold_distinct:
  assumes "\<forall>D. distinct (r D)"
  shows "distinct (foldl (\<lambda>r imp. if prefix (ModulePath pkg) imp \<and> pkg \<notin> set (r imp)
                     then r(imp := r imp @ [pkg]) else r) r ds D)"
  using assms
proof (induction ds arbitrary: r)
  case Nil
  then show ?case by simp
next
  case (Cons d ds)
  let ?r' = "if prefix (ModulePath pkg) d \<and> pkg \<notin> set (r d) then r(d := r d @ [pkg]) else r"
  have "\<forall>D. distinct (?r' D)" using Cons.prems by simp
  from Cons.IH[OF this] show ?case by simp
qed

lemma addTestImports_distinct:
  "\<forall>D. distinct (r D) \<Longrightarrow> distinct (addTestImports pkg r D)"
  unfolding addTestImports_def by (rule addTestImports_fold_distinct)

lemma buildRevdeps_fold_distinct:
  assumes "distinct (map snd pkgs)"
    and "\<forall>(d, pkg) \<in> set pkgs. distinct (Deps pkg)"
    and "\<forall>D. distinct (r D)"
    and "\<forall>D. set (r D) \<inter> snd ` set pkgs = {}"
  shows "distinct (foldl (\<lambda>r (d, pkg). addTestImports pkg (addDeps pkg r)) r pkgs D)"
  using assms
proof (induction pkgs arbitrary: r)
  case Nil
  then show ?case by simp
next
  case (Cons a pkgs)
  obtain d pkg where a: "a = (d, pkg)" by (cases a)
  let ?r' = "addTestImports pkg (addDeps pkg r)"
  have fresh: "\<forall>D. pkg \<notin> set (r D)"
    using Cons.prems(4) unfolding a by auto
  have dd: "distinct (Deps pkg)"
    using Cons.prems(2) unfolding a by simp
  have 1: "distinct (map snd pkgs)" using Cons.prems(1) by simp
  have 2: "\<forall>(d, pkg) \<in> set pkgs. distinct (Deps pkg)" using Cons.prems(2) by simp
  have 3: "\<forall>D. distinct (?r' D)"
    using addTestImports_distinct addDeps_distinct[OF dd Cons.prems(3) fresh] by blast
  have 4: "\<forall>D. set (?r' D) \<inter> snd ` set pkgs = {}"
  proof
    fix D
    have "set (?r' D) \<subseteq> set (r D) \<union> {pkg}"
      by (auto simp: addTestImports_mem addDeps_mem)
    moreover have "pkg \<notin> snd ` set pkgs"
      using Cons.prems(1) unfolding a by (simp add: image_iff) 
    moreover have "set (r D) \<inter> snd ` set pkgs = {}"
      using Cons.prems(4) unfolding a by auto
    ultimately show "set (?r' D) \<inter> snd ` set pkgs = {}" by blast
  qed
  show ?case
    unfolding a using Cons.IH[OF 1 2 3 4] by simp
qed

subsection \<open>Snapshots\<close>

text \<open>
  In a snapshot as \<^verbatim>\<open>loadPackages\<close> builds it, different entries hold different packages,
  so that the loop of \<^verbatim>\<open>buildRevdeps\<close> meets each package once.
\<close>

lemma snapshot_ok_distinct_values:
  assumes "snapshot_ok pkgs"
  shows "distinct (map snd pkgs)"
proof -
  have inj: "inj_on snd (set pkgs)"
  proof (rule inj_onI)
    fix x y assume x: "x \<in> set pkgs" and y: "y \<in> set pkgs" and e: "snd x = snd y"
    have k: "fst z = Dir (snd z)" if "z \<in> set pkgs" for z
      using assms that unfolding snapshot_ok_def by (cases z) auto
    show "x = y" using e k[OF x] k[OF y] by (simp add: prod_eq_iff)
  qed
  have "distinct pkgs"
    using assms unfolding snapshot_ok_def by (simp add: distinct_map)
  then show ?thesis
    by (simp add: distinct_map inj)
qed

lemma loadPackages_ok: "snapshot_ok (loadPackages decoded)"
proof -
  have "snapshot_ok (foldl (\<lambda>pkgs pkg. AList.update (Dir pkg) pkg pkgs) acc decoded)"
    if "snapshot_ok acc" for acc
    using that
  proof (induction decoded arbitrary: acc)
    case Nil
    then show ?case by simp
  next
    case (Cons p ps)
    have sub: "set (AList.update (Dir p) p acc) \<subseteq> insert (Dir p, p) (set acc)"
      by (induction acc) auto
    have "snapshot_ok (AList.update (Dir p) p acc)"
      using Cons.prems sub unfolding snapshot_ok_def
      by (auto simp: distinct_update)
    then show ?case using Cons.IH by simp
  qed
  moreover have "snapshot_ok []"
    by (simp add: snapshot_ok_def)
  ultimately show ?thesis
    unfolding loadPackages_def by blast
qed

text \<open>
  C9. For a snapshot as \<^verbatim>\<open>loadPackages\<close> builds it, in which the \<^verbatim>\<open>Deps\<close> of each package
  name an import path once, as the output of \<^verbatim>\<open>go list\<close> does: the index lists \<open>Q\<close>
  under \<open>D\<close> exactly when \<open>Q\<close> is a package of the snapshot, \<open>D\<close> is among its \<^verbatim>\<open>Deps\<close>,
  \<^verbatim>\<open>TestImports\<close> or \<^verbatim>\<open>XTestImports\<close>, and \<open>D\<close> starts with \<open>Q\<close>'s module path; and no
  list of the index holds a package twice.
\<close>

theorem revdeps_exact_and_duplicate_free:
  assumes "snapshot_ok pkgs"
    and "\<forall>(d, pkg) \<in> set pkgs. distinct (Deps pkg)"
  shows "(Q \<in> set (buildRevdeps pkgs D)
            \<longleftrightarrow> Q \<in> snd ` set pkgs
                \<and> (D \<in> set (Deps Q) \<or> D \<in> set (TestImports Q) \<or> D \<in> set (XTestImports Q))
                \<and> prefix (ModulePath Q) D)
         \<and> distinct (buildRevdeps pkgs D)"
proof -
  have "distinct (buildRevdeps pkgs D)"
    unfolding buildRevdeps_def
    using snapshot_ok_distinct_values[OF assms(1)] assms(2)
    by (intro buildRevdeps_fold_distinct) auto
  then show ?thesis
    using buildRevdeps_mem by blast
qed

text \<open>
  \<^verbatim>\<open>api\<close> names \<^verbatim>\<open>core\<close> both in its \<^verbatim>\<open>Deps\<close> and in its \<^verbatim>\<open>XTestImports\<close>, and is listed
  once under \<^verbatim>\<open>core\<close>; \<^verbatim>\<open>solo\<close> does not import \<^verbatim>\<open>core\<close> and is not listed.
\<close>

theorem revdeps_exact_and_duplicate_free_witness:
  "snapshot_ok ex_snapshot
   \<and> ''example.com/app/core'' \<in> set (Deps ex_api)
   \<and> ''example.com/app/core'' \<in> set (XTestImports ex_api)
   \<and> ex_api \<in> set (buildRevdeps ex_snapshot ''example.com/app/core'')
   \<and> ex_solo \<notin> set (buildRevdeps ex_snapshot ''example.com/app/core'')
   \<and> distinct (buildRevdeps ex_snapshot ''example.com/app/core'')"
proof -
  have ok: "snapshot_ok ex_snapshot"
    by code_simp
  have dd: "\<forall>(d, pkg) \<in> set ex_snapshot. distinct (Deps pkg)"
    by code_simp
  have m: "''example.com/app/core'' \<in> set (Deps ex_api)"
    "''example.com/app/core'' \<in> set (XTestImports ex_api)"
    "ex_api \<in> snd ` set ex_snapshot" "prefix (ModulePath ex_api) ''example.com/app/core''"
    "''example.com/app/core'' \<notin> set (Deps ex_solo)"
    "''example.com/app/core'' \<notin> set (TestImports ex_solo)"
    "''example.com/app/core'' \<notin> set (XTestImports ex_solo)"
    by code_simp+
  show ?thesis
    using revdeps_exact_and_duplicate_free[OF ok dd, of ex_api "''example.com/app/core''"]
      revdeps_exact_and_duplicate_free[OF ok dd, of ex_solo "''example.com/app/core''"] ok m
    by blast
qed

section \<open>Properties of the debounce collector\<close>

text \<open>
  The loop returns at the deadline, with the events taken from the front of the
  channel: none of them arrives after the deadline, and none of those left arrives
  before it.
\<close>

lemma debounceLoop_split:
  assumes "sorted (map fst ch)" and "now \<le> deadline"
    and "now = deadline \<longrightarrow> (\<forall>(t, e) \<in> set ch. deadline \<le> t)"
  shows "\<exists>taken rest. debounceLoop pick deadline now ch events
                         = (events @ map snd taken, deadline, rest)
           \<and> ch = taken @ rest
           \<and> (\<forall>(t, e) \<in> set taken. t \<le> deadline)
           \<and> (\<forall>(t, e) \<in> set rest. deadline \<le> t)"
  using assms
proof (induction ch arbitrary: events now)
  case Nil
  then show ?case by (simp add: max_def)
next
  case (Cons a ch)
  obtain arrival v where a: "a = (arrival, v)" by (cases a)
  have s: "sorted (map fst ch)" and le: "\<forall>(t, e) \<in> set ch. arrival \<le> t"
    using Cons.prems(1) unfolding a by auto
  have ex: "max now deadline = deadline"
    using Cons.prems(2) by simp
  show ?case
  proof (cases "max now arrival < deadline \<or> (max now arrival = deadline \<and> pick events)")
    case True
    have n: "max now arrival \<le> deadline"
      using True by auto
    have i: "max now arrival = deadline \<longrightarrow> (\<forall>(t, e) \<in> set ch. deadline \<le> t)"
    proof
      assume m: "max now arrival = deadline"
      show "\<forall>(t, e) \<in> set ch. deadline \<le> t"
      proof (cases "now = deadline")
        case True
        then show ?thesis using Cons.prems(3) unfolding a by simp
      next
        case False
        then have "arrival = deadline" using m Cons.prems(2) by (auto simp: max_def split: if_splits)
        then show ?thesis using le by simp
      qed
    qed
    from Cons.IH[OF s n i, of "events @ [v]"] obtain taken rest where
      r: "debounceLoop pick deadline (max now arrival) ch (events @ [v])
            = ((events @ [v]) @ map snd taken, deadline, rest)"
        "ch = taken @ rest" "\<forall>(t, e) \<in> set taken. t \<le> deadline"
        "\<forall>(t, e) \<in> set rest. deadline \<le> t"
      by blast
    have "debounceLoop pick deadline now ((arrival, v) # ch) events
            = debounceLoop pick deadline (max now arrival) ch (events @ [v])"
      by (subst debounceLoop.simps) (simp only: Let_def ex True if_True)
    then have "debounceLoop pick deadline now (a # ch) events
                 = (events @ map snd ((arrival, v) # taken), deadline, rest)"
      unfolding a using r(1) by simp
    moreover have "a # ch = ((arrival, v) # taken) @ rest"
      unfolding a using r(2) by simp
    moreover have "\<forall>(t, e) \<in> set ((arrival, v) # taken). t \<le> deadline"
      using n r(3) by auto
    ultimately show ?thesis using r(4) by blast
  next
    case False
    have "debounceLoop pick deadline now ((arrival, v) # ch) events
            = (events, deadline, (arrival, v) # ch)"
      by (subst debounceLoop.simps) (simp only: Let_def ex False if_False)
    then have "debounceLoop pick deadline now (a # ch) events
                 = (events @ map snd [], deadline, a # ch)"
      unfolding a by simp
    moreover have "\<forall>(t, e) \<in> set (a # ch). deadline \<le> t"
    proof (cases "now = deadline")
      case True
      then show ?thesis using Cons.prems(3) by simp
    next
      case False
      then have "deadline \<le> arrival"
        using \<open>\<not> (max now arrival < deadline \<or> (max now arrival = deadline \<and> pick events))\<close>
          Cons.prems(2) by (auto simp: max_def split: if_splits)
      then show ?thesis unfolding a using le by auto
    qed
    ultimately show ?thesis
      by (metis append_Nil empty_iff list.set(1))
  qed
qed

text \<open>
  C3, as stated, fails: the deadline is not moved by a new event. Three events arrive
  150 ms apart, each less than the period of 200 ms after the one before, and nothing
  follows; \<^verbatim>\<open>debounceFor\<close> returns 200 ms after the first event, the batch holds the
  first two events only, and the third stays in the channel.
\<close>

theorem debounce_resets_counterexample:
  "150000000 - 0 < debouncePeriod \<and> 300000000 - 150000000 < debouncePeriod
   \<and> nextBatch deadlineWins 0 [(0, ''a.go''), (150000000, ''b.go''), (300000000, ''c.go'')]
       = Some ([''a.go'', ''b.go''], 200000000, [(300000000, ''c.go'')])"
  by (simp add: nextBatch_def debounceFor_def debouncePeriod_def deadlineWins_def)

text \<open>
  C3, amended. With the later events in order of arrival, a round that receives its
  first event at time \<open>start\<close> (the later of the event's arrival and the time the loop
  is ready) returns at \<open>start + debouncePeriod\<close>, whatever arrives in between. Its
  batch is the first event followed, in order, by the events \<open>taken\<close> from the front
  of the channel, none of which arrives after that deadline; the events left in the
  channel all arrive at the deadline or later. So every event that arrives before the
  deadline is in the batch, and every event that arrives after it is not.
\<close>

theorem debounce_fixed_window:
  assumes "sorted (map fst ch)"
  shows "\<exists>taken rest.
           nextBatch pick now ((arrival, event) # ch)
             = Some (event # map snd taken, max now arrival + debouncePeriod, rest)
           \<and> ch = taken @ rest
           \<and> (\<forall>(t, e) \<in> set taken. t \<le> max now arrival + debouncePeriod)
           \<and> (\<forall>(t, e) \<in> set rest. max now arrival + debouncePeriod \<le> t)"
proof -
  have p: "max now arrival \<le> max now arrival + debouncePeriod"
    by simp
  have q: "max now arrival = max now arrival + debouncePeriod
             \<longrightarrow> (\<forall>(t, e) \<in> set ch. max now arrival + debouncePeriod \<le> t)"
    by (simp add: debouncePeriod_def)
  from debounceLoop_split[OF assms p q, of pick "[]"]
  obtain taken rest where
    r: "debounceLoop pick (max now arrival + debouncePeriod) (max now arrival) ch []
          = (map snd taken, max now arrival + debouncePeriod, rest)"
      "ch = taken @ rest" "\<forall>(t, e) \<in> set taken. t \<le> max now arrival + debouncePeriod"
      "\<forall>(t, e) \<in> set rest. max now arrival + debouncePeriod \<le> t"
    by auto
  have "nextBatch pick now ((arrival, event) # ch)
          = Some (event # map snd taken, max now arrival + debouncePeriod, rest)"
    using r(1) by (simp add: nextBatch_def debounceFor_def Let_def)
  then show ?thesis using r(2,3,4) by blast
qed

text \<open>The burst of three events again: the last one is left for the next round.\<close>

theorem debounce_fixed_window_witness:
  "sorted (map fst [(150000000 :: nat, ''b.go''), (300000000, ''c.go'')])
   \<and> (\<exists>taken rest.
        nextBatch deadlineWins 0 [(0, ''a.go''), (150000000, ''b.go''), (300000000, ''c.go'')]
          = Some (''a.go'' # map snd taken, max 0 0 + debouncePeriod, rest)
        \<and> [(150000000, ''b.go''), (300000000, ''c.go'')] = taken @ rest
        \<and> (\<forall>(t, e) \<in> set taken. t \<le> max 0 0 + debouncePeriod)
        \<and> (\<forall>(t, e) \<in> set rest. max 0 0 + debouncePeriod \<le> t))"
proof -
  have s: "sorted (map fst [(150000000::nat, ''b.go''), (300000000, ''c.go'')])"
    by simp
  show ?thesis
    using s debounce_fixed_window[OF s, of deadlineWins 0 0 "''a.go''"] by blast
qed

end
